theory Spec2Isabelle
  imports Main "HOL-Library.Word" "HOL-Library.Signed_Division"
begin

section \<open>Color Craze: the data model\<close>

text \<open>
  The sketch stores a card colour in \<^verbatim>\<open>enum Color {none, red, green, blue}\<close>; the
  enumerators have the values 0, 1, 2 and 3.  The generator converts between the
  enumeration and \<^verbatim>\<open>int\<close> by casts, which are the two functions below.  A cast of an
  integer outside 0..3 names no enumerator; the generator only ever casts 1, 2 and 3
  (lemma \<open>next_digit_range\<close>), and the model sends every other integer to \<open>none\<close>.
\<close>

datatype Color = none | red | green | blue

fun int_of_Color :: "Color \<Rightarrow> int" where
  "int_of_Color none = 0"
| "int_of_Color red = 1"
| "int_of_Color green = 2"
| "int_of_Color blue = 3"

definition Color_of_int :: "int \<Rightarrow> Color" where
  "Color_of_int d = (if d = 1 then red else if d = 2 then green else if d = 3 then blue else none)"

section \<open>getColor: classifying one sensor sample\<close>

text \<open>
  \<^verbatim>\<open>getColor\<close> reads four \<^verbatim>\<open>uint16_t\<close> channels from the sensor, in the order
  \<^verbatim>\<open>r, g, b, clearVal\<close>, and classifies them.  The sample is the argument of the model.

  The operands of \<^verbatim>\<open>g + b\<close> are \<^verbatim>\<open>uint16_t\<close>.  C computes the sum in \<^verbatim>\<open>int\<close> when
  \<^verbatim>\<open>int\<close> is wider than 16 bits (the sum is then exact), and in 16-bit unsigned
  arithmetic otherwise (the sum then wraps modulo 65536).  The sketch names boards of both
  kinds, so the width of \<^verbatim>\<open>int\<close> is the parameter \<open>int_bits\<close>.
\<close>

type_synonym sample = "16 word \<times> 16 word \<times> 16 word \<times> 16 word"

definition sum_gb :: "nat \<Rightarrow> 16 word \<Rightarrow> 16 word \<Rightarrow> nat" where
  "sum_gb int_bits g b = (if 16 < int_bits then unat g + unat b else unat (g + b))"

definition getColor :: "nat \<Rightarrow> sample \<Rightarrow> Color" where
  "getColor int_bits s =
     (case s of (r, g, b, clearVal) \<Rightarrow>
        if clearVal > 500 then
          if unat r > sum_gb int_bits g b then red
          else if b > g \<and> b > r then blue
          else if g > r \<and> g > b then green
          else none
        else none)"

text \<open>
  The classifier as the specification words it, over the channel values as natural
  numbers and with the threshold as a parameter: nothing below the threshold, then red,
  blue, green in that order, then nothing.
\<close>

definition spec_classify :: "nat \<Rightarrow> nat \<Rightarrow> nat \<Rightarrow> nat \<Rightarrow> nat \<Rightarrow> Color" where
  "spec_classify threshold r g b clear =
     (if clear < threshold then none
      else if r > g + b then red
      else if b > g \<and> b > r then blue
      else if g > r \<and> g > b then green
      else none)"

section \<open>The stream of sensor readings\<close>

text \<open>
  The game polls \<^verbatim>\<open>getColor()\<close> in loops that only end when a suitable colour is read.
  The functions that poll take the results of the successive calls as a function of the
  number of calls made so far, and return that number with their result.  A loop that
  never sees a suitable colour never returns; its model then yields \<open>None\<close>.
\<close>

type_synonym sensor = "nat \<Rightarrow> Color"

definition sensor_of :: "nat \<Rightarrow> (nat \<Rightarrow> sample) \<Rightarrow> sensor" where
  "sensor_of int_bits tcs t = getColor int_bits (tcs t)"

section \<open>displayNextCard and readAndDisplayCards: collecting one guess\<close>

text \<open>
  \<^verbatim>\<open>displayNextCard(prev, slot, numSlots)\<close> starts with \<^verbatim>\<open>color = prev\<close> and polls while
  \<^verbatim>\<open>color == prev || color == none\<close>; it then draws the card and returns the colour.
  The slot and the number of slots only reach the drawing routine and are left out.
\<close>

partial_function (option) displayNextCard_loop ::
  "sensor \<Rightarrow> Color \<Rightarrow> Color \<Rightarrow> nat \<Rightarrow> (Color \<times> nat) option" where
  "displayNextCard_loop getColor_at prev color t =
     (if color = prev \<or> color = none
      then displayNextCard_loop getColor_at prev (getColor_at t) (Suc t)
      else Some (color, t))"

declare displayNextCard_loop.simps [code]

definition displayNextCard :: "sensor \<Rightarrow> Color \<Rightarrow> nat \<Rightarrow> (Color \<times> nat) option" where
  "displayNextCard getColor_at prev t = displayNextCard_loop getColor_at prev prev t"

text \<open>
  The body of the loop in \<^verbatim>\<open>readAndDisplayCards\<close> is
  \<^verbatim>\<open>Color prev = displayNextCard(prev, i, numSlots); guessedSet[i] = prev;\<close>.
  The declaration introduces a new variable \<^verbatim>\<open>prev\<close> in the block of the loop, and in
  C++ the name is in scope in its own initialiser: the argument of the call is the new,
  not yet initialised variable, never the \<^verbatim>\<open>prev\<close> declared before the loop (which stays
  \<open>none\<close> and is never read) and never the colour stored by the iteration before.  What the
  uninitialised variable holds is not fixed by the program; the model takes it from the
  parameter \<open>uninit\<close>, asked at the number of sensor reads made when the call starts (each
  call reads at least once, so every call asks at a different number).  A content that is
  no enumerator at all lets the loop of \<^verbatim>\<open>displayNextCard\<close> run as the content \<open>none\<close>
  does, since \<^verbatim>\<open>getColor\<close> returns enumerators only.  A compiled loop that keeps
  the variable in one storage location finds there, from the second iteration on, the
  colour that the iteration before stored.
\<close>

function readAndDisplayCards_loop ::
  "sensor \<Rightarrow> (nat \<Rightarrow> Color) \<Rightarrow> Color list \<Rightarrow> nat \<Rightarrow> nat \<Rightarrow> nat \<Rightarrow> (Color list \<times> nat) option" where
  "readAndDisplayCards_loop getColor_at uninit guessedSet numSlots i t =
     (if i < numSlots then
        (case displayNextCard getColor_at (uninit t) t of
           None \<Rightarrow> None
         | Some (prev, t') \<Rightarrow>
             readAndDisplayCards_loop getColor_at uninit (guessedSet[i := prev]) numSlots (i + 1) t')
      else Some (guessedSet, t))"
  by pat_completeness auto
termination
  by (relation "measure (\<lambda>(s, u, gs, n, i, t). n - i)") auto

declare readAndDisplayCards_loop.simps [simp del]

definition readAndDisplayCards ::
  "sensor \<Rightarrow> (nat \<Rightarrow> Color) \<Rightarrow> Color list \<Rightarrow> nat \<Rightarrow> nat \<Rightarrow> (Color list \<times> nat) option" where
  "readAndDisplayCards getColor_at uninit guessedSet numSlots t =
     readAndDisplayCards_loop getColor_at uninit guessedSet numSlots 0 t"

section \<open>getCorrectSet: the hidden set\<close>

text \<open>
  \<^verbatim>\<open>getCorrectSet\<close> uses three functions of the C library, which are parameters here:
  \<open>pow3 n\<close> is the \<^verbatim>\<open>int\<close> that \<^verbatim>\<open>pow(3, n)\<close> converts to, \<open>srand seed\<close> is the state of
  the random number generator after seeding, and \<open>rand g\<close> is the number drawn in state
  \<open>g\<close> with the state after the draw.
\<close>

record libc =
  pow3 :: "nat \<Rightarrow> int"
  srand :: "nat \<Rightarrow> nat"
  rand :: "nat \<Rightarrow> int \<times> nat"

text \<open>
  One round of the loop computes \<^verbatim>\<open>int digit = (enum Color)((num % 3) + 1)\<close> and moves it
  on by one, cyclically, when it equals \<^verbatim>\<open>prev\<close>.  C's \<^verbatim>\<open>%\<close> and \<^verbatim>\<open>/\<close> truncate towards
  zero: they are \<open>smod\<close> and \<open>sdiv\<close>.
\<close>

definition next_digit :: "int \<Rightarrow> int \<Rightarrow> int" where
  "next_digit num prev =
     (let digit = int_of_Color (Color_of_int ((num smod 3) + 1))
      in if digit = prev then (if digit \<noteq> 3 then digit + 1 else 1) else digit)"

function getCorrectSet_loop :: "Color list \<Rightarrow> nat \<Rightarrow> nat \<Rightarrow> int \<Rightarrow> int \<Rightarrow> Color list" where
  "getCorrectSet_loop correctSet numSlots index num prev =
     (if index < numSlots then
        getCorrectSet_loop (correctSet[index := Color_of_int (next_digit num prev)])
          numSlots (index + 1) (num sdiv int numSlots) (next_digit num prev)
      else correctSet)"
  by pat_completeness auto
termination
  by (relation "measure (\<lambda>(cs, n, i, num, prev). n - i)") auto

declare getCorrectSet_loop.simps [simp del]

text \<open>
  The call takes the value read from the analog pin, the state of the generator before
  the call, and the caller's array; it returns the array and the state of the generator.
\<close>

definition getCorrectSet ::
  "libc \<Rightarrow> nat \<Rightarrow> nat \<Rightarrow> Color list \<Rightarrow> nat \<Rightarrow> Color list \<times> nat" where
  "getCorrectSet lc a5 g correctSet numSlots =
     (let numCombos = pow3 lc numSlots;
          seeded = srand lc a5;
          num = fst (rand lc seeded) smod numCombos
      in (getCorrectSet_loop correctSet numSlots 0 num (- 1), snd (rand lc seeded)))"

text \<open>
  The generator as the specification words it: the drawn number is written in base 3,
  least significant digit first; digit \<open>d\<close> is the colour with the number \<open>d + 1\<close> of the
  enumeration; a colour equal to the one emitted before it moves on by one in the cycle
  1, 2, 3, 1.
\<close>

definition spec_symbol :: "nat \<Rightarrow> Color" where
  "spec_symbol d = (if d = 0 then red else if d = 1 then green else blue)"

fun spec_advance :: "Color \<Rightarrow> Color" where
  "spec_advance red = green"
| "spec_advance green = blue"
| "spec_advance blue = red"
| "spec_advance none = none"

fun spec_generate :: "nat \<Rightarrow> nat \<Rightarrow> Color option \<Rightarrow> Color list" where
  "spec_generate 0 num prev = []"
| "spec_generate (Suc k) num prev =
     (let s = spec_symbol (num mod 3);
          e = (if prev = Some s then spec_advance s else s)
      in e # spec_generate k (num div 3) (Some e))"

section \<open>removeWrongGuesses: scoring one guess\<close>

text \<open>
  The first loop of \<^verbatim>\<open>removeWrongGuesses\<close> fills the local array
  \<^verbatim>\<open>guessedCorrectlySet\<close> and counts the wrong slots.  The function then draws that array,
  prints \<^verbatim>\<open>numSlots - numWrongGuesses\<close> and returns the count of wrong slots: the three
  values are the fields of the result.  The local array is not initialised in the source
  and every slot below \<^verbatim>\<open>numSlots\<close> is written before it is drawn; the model starts it
  with \<open>none\<close> in every slot.
\<close>

function removeWrongGuesses_loop ::
  "Color list \<Rightarrow> Color list \<Rightarrow> nat \<Rightarrow> nat \<Rightarrow> int \<Rightarrow> Color list \<Rightarrow> int \<times> Color list" where
  "removeWrongGuesses_loop guessedSet correctSet numSlots i numWrongGuesses guessedCorrectlySet =
     (if i < numSlots then
        (if guessedSet ! i \<noteq> correctSet ! i
         then removeWrongGuesses_loop guessedSet correctSet numSlots (i + 1)
                (numWrongGuesses + 1) (guessedCorrectlySet[i := none])
         else removeWrongGuesses_loop guessedSet correctSet numSlots (i + 1)
                numWrongGuesses (guessedCorrectlySet[i := guessedSet ! i]))
      else (numWrongGuesses, guessedCorrectlySet))"
  by pat_completeness auto
termination
  by (relation "measure (\<lambda>(gs, cs, n, i, w, m). n - i)") auto

declare removeWrongGuesses_loop.simps [simp del]

record feedback =
  returned :: int
  drawn :: "Color list"
  printed :: int

definition removeWrongGuesses :: "Color list \<Rightarrow> Color list \<Rightarrow> nat \<Rightarrow> feedback" where
  "removeWrongGuesses guessedSet correctSet numSlots =
     (let res = removeWrongGuesses_loop guessedSet correctSet numSlots 0 0 (replicate numSlots none);
          numWrongGuesses = fst res;
          numRightGuesses = int numSlots - numWrongGuesses
      in \<lparr>returned = numWrongGuesses, drawn = snd res, printed = numRightGuesses\<rparr>)"

section \<open>game: one play-through\<close>

text \<open>
  \<^verbatim>\<open>game\<close> computes the number of slots and of guesses as \<^verbatim>\<open>level + 2\<close>, generates the
  hidden set, and runs the loop \<^verbatim>\<open>for (int i = 0; i < numSlots; i++)\<close>: read a guess,
  score it, return \<^verbatim>\<open>true\<close> when no slot is wrong.  After the loop it returns \<^verbatim>\<open>false\<close>.
  The result records the outcome, the number of calls of \<^verbatim>\<open>readAndDisplayCards\<close> made and
  the number of sensor reads made when the function returns.  The two arrays are not
  initialised in the source and are written in every slot before they are read; the model
  starts them with \<open>none\<close> in every slot.
\<close>

record run =
  outcome :: bool
  attempts :: nat
  reads :: nat

function game_loop ::
  "sensor \<Rightarrow> (nat \<Rightarrow> Color) \<Rightarrow> Color list \<Rightarrow> nat \<Rightarrow> Color list \<Rightarrow> nat \<Rightarrow> nat \<Rightarrow> run option" where
  "game_loop getColor_at uninit correctSet numSlots guessedSet i t =
     (if i < numSlots then
        (case readAndDisplayCards getColor_at uninit guessedSet numSlots t of
           None \<Rightarrow> None
         | Some (guessedSet', t') \<Rightarrow>
             if returned (removeWrongGuesses guessedSet' correctSet numSlots) = 0
             then Some \<lparr>outcome = True, attempts = i + 1, reads = t'\<rparr>
             else game_loop getColor_at uninit correctSet numSlots guessedSet' (i + 1) t')
      else Some \<lparr>outcome = False, attempts = i, reads = t\<rparr>)"
  by pat_completeness auto
termination
  by (relation "measure (\<lambda>(s, u, cs, n, gs, i, t). n - i)") auto

declare game_loop.simps [simp del]

definition game ::
  "libc \<Rightarrow> nat \<Rightarrow> sensor \<Rightarrow> (nat \<Rightarrow> Color) \<Rightarrow> nat \<Rightarrow> nat \<Rightarrow> nat \<Rightarrow> run option" where
  "game lc a5 getColor_at uninit level g t =
     (let numSlots = level + 2;
          numGuesses = level + 2;
          correctSet = fst (getCorrectSet lc a5 g (replicate numSlots none) numSlots)
      in game_loop getColor_at uninit correctSet numSlots (replicate numSlots none) 0 t)"

section \<open>startScreen: choosing the level\<close>

text \<open>
  \<^verbatim>\<open>startScreen\<close> polls the sensor while the colour is \<open>none\<close>, at most 10 times under the
  title screen and then up to a count of 90 under the level screen, and starts over until
  a colour was read.  The two inner loops differ in the screen they draw only.
\<close>

function startScreen_poll :: "sensor \<Rightarrow> nat \<Rightarrow> Color \<Rightarrow> nat \<Rightarrow> nat \<Rightarrow> Color \<times> nat \<times> nat" where
  "startScreen_poll getColor_at bound color counter t =
     (if color = none \<and> counter < bound
      then startScreen_poll getColor_at bound (getColor_at t) (counter + 1) (t + 1)
      else (color, counter, t))"
  by pat_completeness auto
termination
  by (relation "measure (\<lambda>(s, bound, c, counter, t). bound - counter)") auto

declare startScreen_poll.simps [simp del]

definition startScreen_round :: "sensor \<Rightarrow> Color \<Rightarrow> bool \<Rightarrow> nat \<Rightarrow> Color \<times> bool \<times> nat" where
  "startScreen_round getColor_at color startSignal t =
     (let p1 = startScreen_poll getColor_at 10 color 0 t;
          startSignal1 = (if fst p1 \<noteq> none then True else startSignal);
          p2 = startScreen_poll getColor_at 90 (fst p1) (fst (snd p1)) (snd (snd p1));
          startSignal2 = (if fst p2 \<noteq> none then True else startSignal1)
      in (fst p2, startSignal2, snd (snd p2)))"

partial_function (option) startScreen_loop ::
  "sensor \<Rightarrow> Color \<Rightarrow> bool \<Rightarrow> nat \<Rightarrow> (Color \<times> nat) option" where
  "startScreen_loop getColor_at color startSignal t =
     (if startSignal = False then
        startScreen_loop getColor_at
          (fst (startScreen_round getColor_at color startSignal t))
          (fst (snd (startScreen_round getColor_at color startSignal t)))
          (snd (snd (startScreen_round getColor_at color startSignal t)))
      else Some (color, t))"

declare startScreen_loop.simps [code]

text \<open>
  After the loop come three \<^verbatim>\<open>if\<close> statements with a \<^verbatim>\<open>return\<close> each; the function has
  no \<^verbatim>\<open>return\<close> after them.  The level is \<open>None\<close> where no \<^verbatim>\<open>return\<close> is reached.
\<close>

definition startScreen :: "sensor \<Rightarrow> nat \<Rightarrow> (int option \<times> nat) option" where
  "startScreen getColor_at t =
     (case startScreen_loop getColor_at none False t of
        None \<Rightarrow> None
      | Some (color, t') \<Rightarrow>
          Some (if color = green then Some 1
                else if color = blue then Some 2
                else if color = red then Some 3
                else None, t'))"

section \<open>The classifier\<close>

lemma clear_gt_500: "(500 < (c :: 16 word)) = (500 < unat c)"
  by (simp add: word_less_nat_alt)

lemma sum_gb_exact:
  "16 < int_bits \<or> unat g + unat b < 65536 \<Longrightarrow> sum_gb int_bits g b = unat g + unat b"
  by (auto simp: sum_gb_def unat_word_ariths)

lemma sensor_of_colour_above_threshold:
  "sensor_of int_bits tcs t \<noteq> none \<Longrightarrow> 500 < snd (snd (snd (tcs t)))"
  by (auto simp: sensor_of_def getColor_def split: prod.splits if_splits)

text \<open>
  Claim C7.  The claim: for every sample, the classifier returns \<open>none\<close> when the clear
  channel is below the threshold, and otherwise red if \<open>r\<close> exceeds \<open>g + b\<close>, else blue
  if \<open>b\<close> exceeds \<open>g\<close> and \<open>r\<close>, else green if \<open>g\<close> exceeds \<open>r\<close> and \<open>b\<close>, else
  \<open>none\<close>.  The threshold of the source is 500 and its test is \<^verbatim>\<open>clearVal > 500\<close>: a
  sample whose clear channel is exactly 500 is not below the threshold and is still
  \<open>none\<close>, although its red channel dominates.  On a target whose \<^verbatim>\<open>int\<close> has 16 bits,
  \<^verbatim>\<open>g + b\<close> wraps, and a sample with \<open>g + b \<ge> 65536\<close> can be red although \<open>r\<close> does
  not exceed the sum.
\<close>

theorem getColor_boundary_counterexample:
  "getColor 16 (900, 100, 100, 500) = none \<and> getColor 32 (900, 100, 100, 500) = none \<and>
   spec_classify 500 900 100 100 500 = red \<and>
   getColor 16 (20000, 40000, 40000, 1000) = red \<and>
   spec_classify 500 20000 40000 40000 1000 = none"
  by (simp add: getColor_def sum_gb_def spec_classify_def)

text \<open>
  Claim C7, as amended.  Where \<^verbatim>\<open>g + b\<close> does not wrap (\<^verbatim>\<open>int\<close> is wider than 16 bits,
  or the sum of the two channels is below 65536), the classifier returns \<open>none\<close> when the
  clear channel is at most 500, and otherwise red, blue, green or \<open>none\<close> by the
  comparisons of the claim, in that order.
\<close>

theorem getColor_classifies:
  assumes "16 < int_bits \<or> unat g + unat b < 65536"
  shows "getColor int_bits (r, g, b, clearVal) =
     (if unat clearVal \<le> 500 then none
      else if unat r > unat g + unat b then red
      else if unat b > unat g \<and> unat b > unat r then blue
      else if unat g > unat r \<and> unat g > unat b then green
      else none)"
  using sum_gb_exact [OF assms]
  by (simp add: getColor_def clear_gt_500 word_less_nat_alt)

theorem getColor_classifies_witness:
  "((16 :: nat) < 32 \<or> unat (300 :: 16 word) + unat (200 :: 16 word) < 65536) \<and>
   getColor 32 (100, 300, 200, 501) = green"
  using getColor_classifies [of 32 300 200 100 501] by simp

text \<open>
  Claim C10.  A sample whose clear channel is 500 or less is classified as \<open>none\<close>
  whatever the three colour channels hold, and a sample that is classified as a colour
  has a clear channel strictly above 500.
\<close>

theorem getColor_threshold:
  "(clearVal \<le> 500 \<longrightarrow> getColor int_bits (r, g, b, clearVal) = none) \<and>
   (getColor int_bits (r, g, b, clearVal) \<noteq> none \<longrightarrow> 500 < clearVal)"
  by (auto simp: getColor_def)

theorem getColor_threshold_witness:
  "((500 :: 16 word) \<le> 500 \<and> getColor 16 (900, 100, 100, 500) = none) \<and>
   (getColor 16 (900, 100, 100, 501) \<noteq> none \<and> (500 :: 16 word) < 501)"
  using getColor_threshold [of 500 16 900 100 100] getColor_threshold [of 501 16 900 100 100]
  by (simp add: getColor_def sum_gb_def)

section \<open>Scoring\<close>

lemma removeWrongGuesses_loop_eq:
  "i \<le> numSlots \<Longrightarrow> length m = numSlots \<Longrightarrow>
   removeWrongGuesses_loop gs cs numSlots i w m =
     (w + int (length (filter (\<lambda>j. gs ! j \<noteq> cs ! j) [i..<numSlots])),
      take i m @ map (\<lambda>j. if gs ! j \<noteq> cs ! j then none else gs ! j) [i..<numSlots])"
proof (induction gs cs numSlots i w m rule: removeWrongGuesses_loop.induct)
  case (1 gs cs numSlots i w m)
  show ?case
  proof (cases "i < numSlots")
    case False
    with "1.prems" show ?thesis by (subst removeWrongGuesses_loop.simps) simp
  next
    case True
    then have upt: "[i..<numSlots] = i # [Suc i..<numSlots]"
      by (simp add: upt_conv_Cons)
    have tk: "take (Suc i) (m[i := v]) = take i m @ [v]" for v
      using True "1.prems" by (simp add: take_Suc_conv_app_nth)
    show ?thesis
    proof (cases "gs ! i \<noteq> cs ! i")
      case True
      with \<open>i < numSlots\<close> "1.prems" "1.IH"(1) [OF \<open>i < numSlots\<close> True] show ?thesis
        by (subst removeWrongGuesses_loop.simps) (simp add: upt tk)
    next
      case False
      with \<open>i < numSlots\<close> "1.prems" "1.IH"(2) [OF \<open>i < numSlots\<close> False] show ?thesis
        by (subst removeWrongGuesses_loop.simps) (simp add: upt tk)
    qed
  qed
qed

lemma count_agree:
  "int n - int (length (filter (\<lambda>j. \<not> P j) [0..<n])) = int (card {i. i < n \<and> P i})"
proof -
  have "length (filter (\<lambda>j. \<not> P j) [0..<n]) + length (filter P [0..<n]) = n"
    using sum_length_filter_compl [of P "[0..<n]"] by simp
  moreover have "length (filter P [0..<n]) = card {i. i < n \<and> P i}"
    by (simp add: length_filter_conv_card cong: conj_cong)
  ultimately show ?thesis by linarith
qed

lemma removeWrongGuesses_eq:
  "removeWrongGuesses gs cs numSlots =
     \<lparr>returned = int (length (filter (\<lambda>j. gs ! j \<noteq> cs ! j) [0..<numSlots])),
      drawn = map (\<lambda>j. if gs ! j \<noteq> cs ! j then none else gs ! j) [0..<numSlots],
      printed = int (card {i. i < numSlots \<and> gs ! i = cs ! i})\<rparr>"
  using count_agree [of numSlots "\<lambda>j. gs ! j = cs ! j"]
  by (simp add: removeWrongGuesses_def removeWrongGuesses_loop_eq Let_def)

lemma returned_zero_iff:
  "length gs = numSlots \<Longrightarrow> length cs = numSlots \<Longrightarrow>
   (returned (removeWrongGuesses gs cs numSlots) = 0) = (gs = cs)"
proof -
  assume len: "length gs = numSlots" "length cs = numSlots"
  have "(returned (removeWrongGuesses gs cs numSlots) = 0) = (\<forall>j<numSlots. gs ! j = cs ! j)"
    by (auto simp: removeWrongGuesses_eq filter_empty_conv)
  also have "\<dots> = (gs = cs)"
    using len by (simp add: list_eq_iff_nth_eq)
  finally show ?thesis .
qed

lemma printed_plus_returned:
  "printed (removeWrongGuesses gs cs numSlots) =
     int numSlots - returned (removeWrongGuesses gs cs numSlots)"
  by (simp add: removeWrongGuesses_def Let_def)

text \<open>
  Claim C4.  For a guess and a target of the length \<open>numSlots\<close>, the count that
  \<^verbatim>\<open>removeWrongGuesses\<close> prints is the number of slots where the two agree; the array it
  draws has the same length and holds the guessed colour where they agree and \<open>none\<close>
  where they disagree, so that, the guess holding no \<open>none\<close> (a collected guess never
  does), a drawn slot is \<open>none\<close> exactly where they disagree; a guess scored against
  itself prints its length and is drawn unchanged.
\<close>

theorem removeWrongGuesses_scores:
  assumes "length guess = numSlots" and "length target = numSlots"
  shows "printed (removeWrongGuesses guess target numSlots) =
           int (card {i. i < numSlots \<and> guess ! i = target ! i}) \<and>
         length (drawn (removeWrongGuesses guess target numSlots)) = numSlots \<and>
         (\<forall>i<numSlots. drawn (removeWrongGuesses guess target numSlots) ! i =
            (if guess ! i = target ! i then guess ! i else none)) \<and>
         (none \<notin> set guess \<longrightarrow>
            (\<forall>i<numSlots. (drawn (removeWrongGuesses guess target numSlots) ! i = none) =
               (guess ! i \<noteq> target ! i))) \<and>
         printed (removeWrongGuesses guess guess numSlots) = int (length guess) \<and>
         drawn (removeWrongGuesses guess guess numSlots) = guess"
proof -
  have "drawn (removeWrongGuesses guess guess numSlots) = guess"
    using assms(1) by (simp add: removeWrongGuesses_eq list_eq_iff_nth_eq)
  moreover have "\<forall>i<numSlots. (drawn (removeWrongGuesses guess target numSlots) ! i = none) =
      (guess ! i \<noteq> target ! i)" if "none \<notin> set guess"
  proof (intro allI impI)
    fix i assume "i < numSlots"
    with that assms(1) have "guess ! i \<noteq> none" by (metis nth_mem)
    with \<open>i < numSlots\<close> show "(drawn (removeWrongGuesses guess target numSlots) ! i = none) =
      (guess ! i \<noteq> target ! i)"
      by (auto simp: removeWrongGuesses_eq)
  qed
  moreover have "printed (removeWrongGuesses guess target numSlots) =
           int (card {i. i < numSlots \<and> guess ! i = target ! i})"
    by (simp add: removeWrongGuesses_eq)
  moreover have "length (drawn (removeWrongGuesses guess target numSlots)) = numSlots"
    by (simp add: removeWrongGuesses_eq)
  moreover have "\<forall>i<numSlots. drawn (removeWrongGuesses guess target numSlots) ! i =
            (if guess ! i = target ! i then guess ! i else none)"
    by (simp add: removeWrongGuesses_eq)
  moreover have "printed (removeWrongGuesses guess guess numSlots) = int (length guess)"
    using assms(1) by (simp add: removeWrongGuesses_eq)
  ultimately show ?thesis by blast
qed

theorem removeWrongGuesses_scores_witness:
  "length [red, green, blue] = 3 \<and> length [red, blue, blue] = 3 \<and> 
   none \<notin> set [red, green, blue] \<and>
   printed (removeWrongGuesses [red, green, blue] [red, blue, blue] 3) = 2 \<and>
   drawn (removeWrongGuesses [red, green, blue] [red, blue, blue] 3) ! 1 = none \<and>
   drawn (removeWrongGuesses [red, green, blue] [red, green, blue] 3) = [red, green, blue]"
proof -
  have c: "card {i. i < (3::nat) \<and> [red, green, blue] ! i = [red, blue, blue] ! i} = 2"
  proof -
    have "{i. i < (3::nat) \<and> [red, green, blue] ! i = [red, blue, blue] ! i} = {0, 2}"
      by (auto simp: less_Suc_eq numeral_3_eq_3)
    then show ?thesis by simp
  qed
  show ?thesis
    using removeWrongGuesses_scores [of "[red, green, blue]" 3 "[red, blue, blue]"] c
    by simp
qed

section \<open>The hidden set\<close>

lemma smod_3_range: "0 \<le> num \<Longrightarrow> (num :: int) smod 3 = num mod 3"
  by (simp add: smod_int_alt_def sgn_if)

lemma sdiv_nonneg: "0 \<le> num \<Longrightarrow> 0 \<le> (num :: int) sdiv int n"
  by (simp add: signed_divide_int_def sgn_if pos_imp_zdiv_nonneg_iff)

lemma int_of_Color_of_int: "1 \<le> d \<Longrightarrow> d \<le> 3 \<Longrightarrow> int_of_Color (Color_of_int d) = d"
  by (auto simp: Color_of_int_def)

lemma Color_of_int_not_none: "1 \<le> d \<Longrightarrow> d \<le> 3 \<Longrightarrow> Color_of_int d \<noteq> none"
  by (auto simp: Color_of_int_def)

lemma next_digit_range:
  assumes "0 \<le> num"
  shows "1 \<le> next_digit num prev \<and> next_digit num prev \<le> 3 \<and> next_digit num prev \<noteq> prev"
proof -
  have "num mod 3 = 0 \<or> num mod 3 = 1 \<or> num mod 3 = 2" by presburger
  then show ?thesis
    using assms by (auto simp: next_digit_def smod_3_range Color_of_int_def Let_def)
qed

lemma getCorrectSet_loop_inv:
  "length cs = n \<Longrightarrow> idx \<le> n \<Longrightarrow> 0 \<le> num \<Longrightarrow>
   \<forall>j<idx. cs ! j \<noteq> none \<Longrightarrow>
   \<forall>j. Suc j < idx \<longrightarrow> cs ! j \<noteq> cs ! Suc j \<Longrightarrow>
   0 < idx \<longrightarrow> prev = int_of_Color (cs ! (idx - 1)) \<Longrightarrow>
   length (getCorrectSet_loop cs n idx num prev) = n \<and>
   (\<forall>j<n. getCorrectSet_loop cs n idx num prev ! j \<noteq> none) \<and>
   (\<forall>j. Suc j < n \<longrightarrow>
      getCorrectSet_loop cs n idx num prev ! j \<noteq> getCorrectSet_loop cs n idx num prev ! Suc j)"
proof (induction cs n idx num prev rule: getCorrectSet_loop.induct)
  case (1 cs n idx num prev)
  show ?case
  proof (cases "idx < n")
    case False
    with "1.prems" have "idx = n" by simp
    with "1.prems" show ?thesis
      by (subst (1 2 3 4) getCorrectSet_loop.simps) simp
  next
    case True
    define d where "d = next_digit num prev"
    define cs' where "cs' = cs[idx := Color_of_int d]"
    have d: "1 \<le> d" "d \<le> 3" "d \<noteq> prev"
      using next_digit_range [OF "1.prems"(3), of prev] by (simp_all add: d_def)
    have len: "length cs' = n" using "1.prems"(1) by (simp add: cs'_def)
    have at: "cs' ! idx = Color_of_int d"
      using True "1.prems"(1) by (simp add: cs'_def)
    have below: "cs' ! j = cs ! j" if "j < idx" for j
      using that by (simp add: cs'_def)
    have nn: "\<forall>j<idx + 1. cs' ! j \<noteq> none"
    proof (intro allI impI)
      fix j assume "j < idx + 1"
      then consider "j < idx" | "j = idx" by linarith
      then show "cs' ! j \<noteq> none"
      proof cases
        case 1 then show ?thesis using "1.prems"(4) below by simp
      next
        case 2 then show ?thesis using at Color_of_int_not_none [OF d(1,2)] by simp
      qed
    qed
    have adj: "\<forall>j. Suc j < idx + 1 \<longrightarrow> cs' ! j \<noteq> cs' ! Suc j"
    proof (intro allI impI)
      fix j assume "Suc j < idx + 1"
      then consider "Suc j < idx" | "Suc j = idx" by linarith
      then show "cs' ! j \<noteq> cs' ! Suc j"
      proof cases
        case 1 then show ?thesis using "1.prems"(5) below by simp
      next
        case 2
        then have p: "prev = int_of_Color (cs ! j)" using "1.prems"(6) by auto
        have "cs ! j \<noteq> Color_of_int d"
        proof
          assume "cs ! j = Color_of_int d"
          then have "prev = d" using p int_of_Color_of_int [OF d(1,2)] by simp
          with d(3) show False by simp
        qed
        then show ?thesis using 2 at below [of j] by simp
      qed
    qed
    have pr: "0 < idx + 1 \<longrightarrow> d = int_of_Color (cs' ! (idx + 1 - 1))"
      using at int_of_Color_of_int [OF d(1,2)] by simp
    have step: "getCorrectSet_loop cs n idx num prev =
        getCorrectSet_loop cs' n (idx + 1) (num sdiv int n) d"
      using True by (subst getCorrectSet_loop.simps) (simp add: cs'_def d_def)
    have "idx + 1 \<le> n" using True by simp
    from "1.IH" [OF True, folded d_def, folded cs'_def, OF len this
        sdiv_nonneg [OF "1.prems"(3)] nn adj pr]
    show ?thesis by (simp add: step)
  qed
qed

lemma getCorrectSet_loop_indep:
  "length cs1 = n \<Longrightarrow> length cs2 = n \<Longrightarrow> take idx cs1 = take idx cs2 \<Longrightarrow>
   getCorrectSet_loop cs1 n idx num prev = getCorrectSet_loop cs2 n idx num prev"
proof (induction cs1 n idx num prev arbitrary: cs2 rule: getCorrectSet_loop.induct)
  case (1 cs n idx num prev)
  show ?case
  proof (cases "idx < n")
    case False
    with "1.prems" show ?thesis
      by (subst (1 2) getCorrectSet_loop.simps) simp
  next
    case True
    let ?v = "Color_of_int (next_digit num prev)"
    have "take (idx + 1) (cs[idx := ?v]) = take (idx + 1) (cs2[idx := ?v])"
      using True "1.prems" by (simp add: take_Suc_conv_app_nth)
    with "1.IH" [OF True, of "cs2[idx := ?v]"] "1.prems" True show ?thesis
      by (subst (1 2) getCorrectSet_loop.simps) simp
  qed
qed

text \<open>
  Claim C8.  The array that \<^verbatim>\<open>getCorrectSet\<close> fills for \<open>numSlots\<close> slots has that many
  elements, none of them is \<open>none\<close>, and no two neighbours are equal.  The library is
  assumed to keep its contracts: \<^verbatim>\<open>rand()\<close> is not negative, and the number of
  combinations is positive, so that \<^verbatim>\<open>%\<close> is defined.
\<close>

theorem getCorrectSet_valid:
  assumes "length correctSet = numSlots"
    and "0 \<le> fst (rand lc (srand lc a5))"
    and "0 < pow3 lc numSlots"
  shows "length (fst (getCorrectSet lc a5 g correctSet numSlots)) = numSlots \<and>
         (\<forall>i<numSlots. fst (getCorrectSet lc a5 g correctSet numSlots) ! i \<noteq> none) \<and>
         (\<forall>i. Suc i < numSlots \<longrightarrow>
            fst (getCorrectSet lc a5 g correctSet numSlots) ! i \<noteq>
            fst (getCorrectSet lc a5 g correctSet numSlots) ! Suc i)"
proof -
  have "0 \<le> fst (rand lc (srand lc a5)) smod pow3 lc numSlots"
    using assms(2,3) by (simp add: smod_int_alt_def sgn_if abs_of_pos)
  from getCorrectSet_loop_inv [OF assms(1) _ this, of 0 "- 1"]
  show ?thesis by (simp add: getCorrectSet_def Let_def)
qed

theorem getCorrectSet_valid_witness:
  "length [none, none, none] = 3 \<and>
   0 \<le> fst (rand \<lparr>pow3 = \<lambda>n. 3 ^ n, srand = \<lambda>s. s, rand = \<lambda>g. (6, g + 1)\<rparr>
             (srand \<lparr>pow3 = \<lambda>n. 3 ^ n, srand = \<lambda>s. s, rand = \<lambda>g. (6, g + 1)\<rparr> 0)) \<and>
   0 < pow3 \<lparr>pow3 = \<lambda>n. 3 ^ n, srand = \<lambda>s. s, rand = \<lambda>g. (6, g + 1)\<rparr> 3 \<and>
   length (fst (getCorrectSet \<lparr>pow3 = \<lambda>n. 3 ^ n, srand = \<lambda>s. s, rand = \<lambda>g. (6, g + 1)\<rparr>
                  0 0 [none, none, none] 3)) = 3 \<and>
   fst (getCorrectSet \<lparr>pow3 = \<lambda>n. 3 ^ n, srand = \<lambda>s. s, rand = \<lambda>g. (6, g + 1)\<rparr>
          0 0 [none, none, none] 3) ! 0 \<noteq> none \<and>
   fst (getCorrectSet \<lparr>pow3 = \<lambda>n. 3 ^ n, srand = \<lambda>s. s, rand = \<lambda>g. (6, g + 1)\<rparr>
          0 0 [none, none, none] 3) ! 0 \<noteq>
   fst (getCorrectSet \<lparr>pow3 = \<lambda>n. 3 ^ n, srand = \<lambda>s. s, rand = \<lambda>g. (6, g + 1)\<rparr>
          0 0 [none, none, none] 3) ! Suc 0"
  using getCorrectSet_valid [of "[none, none, none]" 3
      "\<lparr>pow3 = \<lambda>n. 3 ^ n, srand = \<lambda>s. s, rand = \<lambda>g. (6, g + 1)\<rparr>" 0 0]
  by simp

text \<open>
  Claim C9.  Two calls of \<^verbatim>\<open>getCorrectSet\<close> with the same number of slots and the same
  value read from the analog pin fill their arrays alike and leave the generator in the
  same state, whatever state the generator was in before each call and whatever the two
  arrays held: the call seeds the generator from the reading before it draws.
\<close>

theorem getCorrectSet_deterministic:
  assumes "length cs1 = numSlots" and "length cs2 = numSlots"
  shows "getCorrectSet lc a5 g1 cs1 numSlots = getCorrectSet lc a5 g2 cs2 numSlots"
  using getCorrectSet_loop_indep [OF assms, of 0] by (simp add: getCorrectSet_def Let_def)

theorem getCorrectSet_deterministic_witness:
  "length [none, none, none] = 3 \<and> length [red, red, red] = 3 \<and>
   getCorrectSet \<lparr>pow3 = \<lambda>n. 3 ^ n, srand = \<lambda>s. s, rand = \<lambda>g. (int g, g + 1)\<rparr>
     7 0 [none, none, none] 3 =
   getCorrectSet \<lparr>pow3 = \<lambda>n. 3 ^ n, srand = \<lambda>s. s, rand = \<lambda>g. (int g, g + 1)\<rparr>
     7 99 [red, red, red] 3"
  using getCorrectSet_deterministic [of "[none, none, none]" 3 "[red, red, red]"
      "\<lparr>pow3 = \<lambda>n. 3 ^ n, srand = \<lambda>s. s, rand = \<lambda>g. (int g, g + 1)\<rparr>" 7 0 99]
  by simp

text \<open>
  With three slots the divisor of the loop is 3, and the loop is the base-3 generator.
\<close>

lemma Color_of_int_of_Color: "c \<noteq> none \<Longrightarrow> Color_of_int (int_of_Color c) = c"
  by (cases c) (simp_all add: Color_of_int_def)

lemma spec_advance_Color_of_int:
  assumes "1 \<le> d" and "d \<le> 3"
  shows "spec_advance (Color_of_int d) = Color_of_int (if d \<noteq> 3 then d + 1 else 1)"
proof -
  from assms have "d = 1 \<or> d = 2 \<or> d = 3" by arith
  then show ?thesis by (auto simp: Color_of_int_def)
qed

lemma spec_symbol_Color_of_int:
  assumes "0 \<le> num"
  shows "spec_symbol (nat num mod 3) = Color_of_int (num mod 3 + 1)"
proof -
  have m: "nat num mod 3 = nat (num mod 3)"
    using assms by (simp add: nat_mod_distrib)
  have "num mod 3 = 0 \<or> num mod 3 = 1 \<or> num mod 3 = 2" by presburger
  then show ?thesis by (auto simp: m Color_of_int_def spec_symbol_def)
qed

lemma next_digit_spec:
  assumes "0 \<le> num"
    and "case pc of None \<Rightarrow> prev = - 1 | Some c \<Rightarrow> c \<noteq> none \<and> prev = int_of_Color c"
  shows "Color_of_int (next_digit num prev) =
           (if pc = Some (spec_symbol (nat num mod 3))
            then spec_advance (spec_symbol (nat num mod 3)) else spec_symbol (nat num mod 3)) \<and>
         Color_of_int (next_digit num prev) \<noteq> none \<and>
         next_digit num prev = int_of_Color (Color_of_int (next_digit num prev))"
proof -
  define raw where "raw = num mod 3 + 1"
  have raw: "1 \<le> raw" "raw \<le> 3" by (simp_all add: raw_def)
  have sym: "spec_symbol (nat num mod 3) = Color_of_int raw"
    using spec_symbol_Color_of_int [OF assms(1)] by (simp add: raw_def)
  have nd: "next_digit num prev = (if raw = prev then (if raw \<noteq> 3 then raw + 1 else 1) else raw)"
    using raw by (simp add: next_digit_def Let_def smod_3_range [OF assms(1)] raw_def [symmetric]
        int_of_Color_of_int)
  have eq: "(pc = Some (Color_of_int raw)) = (raw = prev)"
  proof (cases pc)
    case None
    with assms(2) raw show ?thesis by simp
  next
    case (Some c)
    with assms(2) have c: "c \<noteq> none" "prev = int_of_Color c" by simp_all
    show ?thesis
      using Some c raw Color_of_int_of_Color [OF c(1)] int_of_Color_of_int [OF raw] by auto
  qed
  have rng: "1 \<le> next_digit num prev" "next_digit num prev \<le> 3"
    using raw by (simp_all add: nd)
  have "Color_of_int (next_digit num prev) \<noteq> none"
    using rng by (auto simp: Color_of_int_def)
  moreover have "next_digit num prev = int_of_Color (Color_of_int (next_digit num prev))"
    using int_of_Color_of_int [OF rng] by simp
  moreover have "Color_of_int (next_digit num prev) =
           (if pc = Some (spec_symbol (nat num mod 3))
            then spec_advance (spec_symbol (nat num mod 3)) else spec_symbol (nat num mod 3))"
    unfolding sym eq nd spec_advance_Color_of_int [OF raw] by simp
  ultimately show ?thesis by blast
qed

lemma getCorrectSet_loop_3_base3:
  assumes "0 \<le> num"
  shows "getCorrectSet_loop [a, b, c] 3 0 num (- 1) = spec_generate 3 (nat num) None"
proof -
  define d1 where "d1 = next_digit num (- 1)"
  define d2 where "d2 = next_digit (num sdiv 3) d1"
  define d3 where "d3 = next_digit (num sdiv 3 sdiv 3) d2"
  have q: "0 \<le> num sdiv 3" "0 \<le> num sdiv 3 sdiv 3"
    "nat (num sdiv 3) = nat num div 3" "nat (num sdiv 3 sdiv 3) = nat num div 3 div 3"
    using assms by (simp_all add: signed_divide_int_def sgn_if pos_imp_zdiv_nonneg_iff
        nat_div_distrib)
  have "getCorrectSet_loop [a, b, c] 3 0 num (- 1) =
        [Color_of_int d1, Color_of_int d2, Color_of_int d3]"
    by (simp add: getCorrectSet_loop.simps d1_def d2_def d3_def)
  moreover
  have r0: "case None of None \<Rightarrow> (- 1 :: int) = - 1
            | Some c \<Rightarrow> c \<noteq> none \<and> - 1 = int_of_Color c"
    by simp
  note s1 = next_digit_spec [OF assms r0, folded d1_def]
  have r1: "case Some (Color_of_int d1) of None \<Rightarrow> d1 = - 1
            | Some c \<Rightarrow> c \<noteq> none \<and> d1 = int_of_Color c"
    using s1 [THEN conjunct2] by simp
  note s2 = next_digit_spec [OF q(1) r1, folded d2_def]
  have r2: "case Some (Color_of_int d2) of None \<Rightarrow> d2 = - 1
            | Some c \<Rightarrow> c \<noteq> none \<and> d2 = int_of_Color c"
    using s2 [THEN conjunct2] by simp
  note s3 = next_digit_spec [OF q(2) r2, folded d3_def]
  note e1 = s1 [THEN conjunct1, symmetric]
  note e2 = s2 [THEN conjunct1, unfolded q(3), symmetric]
  note e3 = s3 [THEN conjunct1, unfolded q(4), symmetric]
  have three: "spec_generate 3 = spec_generate (Suc (Suc (Suc 0)))"
    by (simp add: numeral_3_eq_3)
  have "spec_generate 3 (nat num) None = [Color_of_int d1, Color_of_int d2, Color_of_int d3]"
    unfolding three spec_generate.simps Let_def e1 e2 e3 by (rule refl)
  ultimately show ?thesis by simp
qed

text \<open>
  Claim C1.  The claim: the hidden set is the base-3 expansion of the drawn number, least
  significant digit first, digit \<open>d\<close> as colour \<open>d + 1\<close>, a repeated colour moved on by
  one in the cycle.  The loop of the source divides the number by \<^verbatim>\<open>numSlots\<close>, not by 3,
  to reach the next digit; the two are the same for three slots only (lemma
  \<open>getCorrectSet_loop_3_base3\<close>).  For four slots and the drawn number 6 it fills the
  array with red, green, red, green; the base-3 expansion of 6 gives red, blue, red, green.
\<close>

theorem getCorrectSet_divides_by_numSlots:
  "fst (getCorrectSet \<lparr>pow3 = \<lambda>n. 3 ^ n, srand = \<lambda>s. s, rand = \<lambda>g. (6, g + 1)\<rparr>
          0 0 [none, none, none, none] 4) = [red, green, red, green] \<and>
   spec_generate 4 6 None = [red, blue, red, green]"
  by code_simp

section \<open>Collecting a guess\<close>

lemma displayNextCard_loop_Some:
  assumes "displayNextCard_loop s prev color t = Some y"
  shows "fst y \<noteq> prev \<and> fst y \<noteq> none \<and> t \<le> snd y \<and>
   (snd y = t \<longrightarrow> fst y = color) \<and> (t < snd y \<longrightarrow> fst y = s (snd y - 1))"
proof (rule displayNextCard_loop.raw_induct [where P = "\<lambda>s prev color t y.
    fst y \<noteq> prev \<and> fst y \<noteq> none \<and> t \<le> snd y \<and>
    (snd y = t \<longrightarrow> fst y = color) \<and> (t < snd y \<longrightarrow> fst y = s (snd y - 1))", OF _ assms])
  fix loop :: "sensor \<Rightarrow> Color \<Rightarrow> Color \<Rightarrow> nat \<Rightarrow> (Color \<times> nat) option"
  fix s prev color t y
  assume IH: "\<And>s prev color t y. loop s prev color t = Some y \<Longrightarrow>
    fst y \<noteq> prev \<and> fst y \<noteq> none \<and> t \<le> snd y \<and>
    (snd y = t \<longrightarrow> fst y = color) \<and> (t < snd y \<longrightarrow> fst y = s (snd y - 1))"
  assume eq: "(if color = prev \<or> color = none then loop s prev (s t) (Suc t)
               else Some (color, t)) = Some y"
  show "fst y \<noteq> prev \<and> fst y \<noteq> none \<and> t \<le> snd y \<and>
    (snd y = t \<longrightarrow> fst y = color) \<and> (t < snd y \<longrightarrow> fst y = s (snd y - 1))"
  proof (cases "color = prev \<or> color = none")
    case True
    with eq have "loop s prev (s t) (Suc t) = Some y" by simp
    from IH [OF this] show ?thesis by (cases "snd y = Suc t") auto
  next
    case False
    with eq show ?thesis by auto
  qed
qed

lemma displayNextCard_Some:
  assumes "displayNextCard s prev t = Some (c, t')"
  shows "c \<noteq> prev \<and> c \<noteq> none \<and> t < t' \<and> c = s (t' - 1)"
proof -
  from displayNextCard_loop_Some [OF assms [unfolded displayNextCard_def]]
  have *: "c \<noteq> prev" "c \<noteq> none" "t \<le> t'" "t' = t \<longrightarrow> c = prev" "t < t' \<longrightarrow> c = s (t' - 1)"
    by simp_all
  then have "t < t'" by (cases "t' = t") auto
  with * show ?thesis by simp
qed

lemma displayNextCard_loop_returns:
  "color = prev \<or> color = none \<Longrightarrow>
   \<forall>k<d. s (t + k) = prev \<or> s (t + k) = none \<Longrightarrow>
   s (t + d) \<noteq> prev \<Longrightarrow> s (t + d) \<noteq> none \<Longrightarrow>
   displayNextCard_loop s prev color t = Some (s (t + d), t + d + 1)"
proof (induction d arbitrary: color t)
  case 0
  then show ?case
    by (subst displayNextCard_loop.simps, subst displayNextCard_loop.simps) simp
next
  case (Suc d)
  have first: "s t = prev \<or> s t = none" using Suc.prems(2) [rule_format, of 0] by simp
  have rest: "\<forall>k<d. s (Suc t + k) = prev \<or> s (Suc t + k) = none"
    using Suc.prems(2) by (auto dest: spec [of _ "Suc _"])
  have "displayNextCard_loop s prev (s t) (Suc t) = Some (s (Suc t + d), Suc t + d + 1)"
    using Suc.IH [OF first rest] Suc.prems(3,4) by simp
  with Suc.prems(1) show ?case
    by (subst displayNextCard_loop.simps) simp
qed




lemma displayNextCard_skips_repeats:
  "\<forall>k<d. s (t + k) = prev \<or> s (t + k) = none \<Longrightarrow>
   s (t + d) \<noteq> prev \<Longrightarrow> s (t + d) \<noteq> none \<Longrightarrow>
   displayNextCard s prev t = Some (s (t + d), t + d + 1)"
  unfolding displayNextCard_def by (rule displayNextCard_loop_returns) simp_all

lemma displayNextCard_waits:
  assumes "\<forall>k. s (t + k) = prev \<or> s (t + k) = none"
  shows "displayNextCard s prev t = None"
proof (cases "displayNextCard s prev t")
  case (Some y)
  obtain c t' where y: "y = (c, t')" by (cases y)
  from displayNextCard_Some [OF Some [unfolded y]]
  have c: "c \<noteq> prev" "c \<noteq> none" "t < t'" "c = s (t' - 1)" by blast+
  from c(3) have "t' - 1 = t + (t' - 1 - t)" by simp
  with assms [rule_format, of "t' - 1 - t"] c show ?thesis by metis
qed simp



text \<open>
  With a sensor that reads red for ever, the second slot is never accepted: the call
  does not return.
\<close>

lemma readAndDisplayCards_waits_for_change:
  "readAndDisplayCards (\<lambda>t. red) (\<lambda>t. if t = 0 then none else red) [none, none, none] 3 0 = None"
proof -
  let ?s = "\<lambda>t :: nat. red"
  let ?u = "\<lambda>t :: nat. if t = 0 then none else red"
  have blocked: "displayNextCard ?s red t = None" for t
    by (rule displayNextCard_waits) simp
  have "readAndDisplayCards_loop ?s ?u [none, none, none] 3 0 0 =
        readAndDisplayCards_loop ?s ?u [red, none, none] 3 (0 + 1) 1"
    by (subst readAndDisplayCards_loop.simps)
      (simp add: displayNextCard_def displayNextCard_loop.simps)
  also have "\<dots> = None"
    by (subst readAndDisplayCards_loop.simps) (simp add: blocked)
  finally show ?thesis by (simp add: readAndDisplayCards_def)
qed

text \<open>
  The condition on the variable is needed.  The language does not fix what a variable
  holds before it is written, and with \<open>none\<close> in it at every call the model accepts the
  same colour for every slot.
\<close>

lemma readAndDisplayCards_other_content:
  "readAndDisplayCards (\<lambda>t. red) (\<lambda>t. none) [none, none, none] 3 0 = Some ([red, red, red], 3)"
  by (simp add: readAndDisplayCards_def readAndDisplayCards_loop.simps displayNextCard_def
      displayNextCard_loop.simps)

section \<open>The play-through\<close>

lemma game_loop_win:
  "i < numSlots \<Longrightarrow> readAndDisplayCards s u gs numSlots t = Some (guess, t') \<Longrightarrow>
   returned (removeWrongGuesses guess correctSet numSlots) = 0 \<Longrightarrow>
   game_loop s u correctSet numSlots gs i t = Some \<lparr>outcome = True, attempts = i + 1, reads = t'\<rparr>"
  by (subst game_loop.simps) simp

lemma game_loop_continue:
  "i < numSlots \<Longrightarrow> readAndDisplayCards s u gs numSlots t = Some (guess, t') \<Longrightarrow>
   returned (removeWrongGuesses guess correctSet numSlots) \<noteq> 0 \<Longrightarrow>
   game_loop s u correctSet numSlots gs i t = game_loop s u correctSet numSlots guess (i + 1) t'"
  by (subst game_loop.simps) simp

lemma game_loop_blocked:
  "i < numSlots \<Longrightarrow> readAndDisplayCards s u gs numSlots t = None \<Longrightarrow>
   game_loop s u correctSet numSlots gs i t = None"
  by (subst game_loop.simps) simp

lemma game_loop_exhausted:
  "\<not> i < numSlots \<Longrightarrow>
   game_loop s u correctSet numSlots gs i t = Some \<lparr>outcome = False, attempts = i, reads = t\<rparr>"
  by (subst game_loop.simps) simp

lemma game_level_1:
  "game lc a5 s u 1 g t =
     game_loop s u (fst (getCorrectSet lc a5 g [none, none, none] 3)) 3 [none, none, none] 0 t"
  by (simp add: game_def Let_def numeral_3_eq_3)

lemma printed_returned:
  "(printed (removeWrongGuesses gs cs numSlots) = int numSlots) =
   (returned (removeWrongGuesses gs cs numSlots) = 0)"
  by (simp add: removeWrongGuesses_def Let_def)

lemma game_loop_attempts:
  "game_loop s u cs n gs i t = Some r \<Longrightarrow> i \<le> n \<Longrightarrow>
   (if outcome r then i < attempts r \<and> attempts r \<le> n else attempts r = n)"
proof (induction s u cs n gs i t rule: game_loop.induct)
  case (1 s u cs n gs i t)
  show ?case
  proof (cases "i < n")
    case False
    with "1.prems" show ?thesis by (auto simp: game_loop_exhausted)
  next
    case True
    show ?thesis
    proof (cases "readAndDisplayCards s u gs n t")
      case None
      with True "1.prems" show ?thesis by (simp add: game_loop_blocked)
    next
      case (Some p)
      obtain guess t' where p: "p = (guess, t')" by (cases p)
      show ?thesis
      proof (cases "returned (removeWrongGuesses guess cs n) = 0")
        case z: True
        from game_loop_win [OF True Some [unfolded p] z] "1.prems" True
        show ?thesis by auto
      next
        case nz: False
        from game_loop_continue [OF True Some [unfolded p] nz] "1.prems"(1)
        have "game_loop s u cs n guess (i + 1) t' = Some r" by simp
        from "1.IH" [OF True Some [unfolded p] refl nz this] True
        show ?thesis by (auto split: if_splits)
      qed
    qed
  qed
qed

text \<open>
  Claim C5.  Whenever an attempt of the loop of \<^verbatim>\<open>game\<close> is scored with every slot
  right, the function returns \<^verbatim>\<open>true\<close> there, with the attempt as the last call of
  \<^verbatim>\<open>readAndDisplayCards\<close> and no sensor read after that guess, whatever the number of
  attempts left.  At level 1 a first guess equal to the hidden set ends the game as won
  after one attempt.
\<close>

theorem game_wins_at_once:
  "(i < numSlots \<and> readAndDisplayCards s u gs numSlots t = Some (guess, t') \<and>
    printed (removeWrongGuesses guess correctSet numSlots) = int numSlots \<longrightarrow>
    game_loop s u correctSet numSlots gs i t =
      Some \<lparr>outcome = True, attempts = i + 1, reads = t'\<rparr>) \<and>
   (readAndDisplayCards s u [none, none, none] 3 t = Some (guess1, t1) \<and>
    guess1 = fst (getCorrectSet lc a5 g [none, none, none] 3) \<longrightarrow>
    game lc a5 s u 1 g t = Some \<lparr>outcome = True, attempts = 1, reads = t1\<rparr>)"
proof (intro conjI impI)
  assume "i < numSlots \<and> readAndDisplayCards s u gs numSlots t = Some (guess, t') \<and>
    printed (removeWrongGuesses guess correctSet numSlots) = int numSlots"
  then show "game_loop s u correctSet numSlots gs i t =
      Some \<lparr>outcome = True, attempts = i + 1, reads = t'\<rparr>"
    using game_loop_win [of i numSlots s u gs t guess t' correctSet]
    by (simp add: printed_returned)
next
  assume a: "readAndDisplayCards s u [none, none, none] 3 t = Some (guess1, t1) \<and>
    guess1 = fst (getCorrectSet lc a5 g [none, none, none] 3)"
  have "returned (removeWrongGuesses guess1 guess1 3) = 0"
    by (simp add: removeWrongGuesses_def removeWrongGuesses_loop.simps)
  with a show "game lc a5 s u 1 g t = Some \<lparr>outcome = True, attempts = 1, reads = t1\<rparr>"
    unfolding game_level_1
    using game_loop_win [of 0 3 s u "[none, none, none]" t guess1 t1 guess1]
    by simp
qed

theorem game_wins_at_once_witness:
  "(0 :: nat) < 3 \<and>
   readAndDisplayCards (\<lambda>t. if t = 1 then blue else red) (\<lambda>t. none) [none, none, none] 3 0 =
     Some ([red, blue, red], 3) \<and>
   printed (removeWrongGuesses [red, blue, red] [red, blue, red] 3) = int 3 \<and>
   game_loop (\<lambda>t. if t = 1 then blue else red) (\<lambda>t. none) [red, blue, red] 3 [none, none, none] 0 0 =
     Some \<lparr>outcome = True, attempts = 1, reads = 3\<rparr> \<and>
   [red, blue, red] =
     fst (getCorrectSet \<lparr>pow3 = \<lambda>n. 3 ^ n, srand = \<lambda>s. s, rand = \<lambda>g. (6, g + 1)\<rparr>
            0 0 [none, none, none] 3) \<and>
   game \<lparr>pow3 = \<lambda>n. 3 ^ n, srand = \<lambda>s. s, rand = \<lambda>g. (6, g + 1)\<rparr> 0
     (\<lambda>t. if t = 1 then blue else red) (\<lambda>t. none) 1 0 0 =
     Some \<lparr>outcome = True, attempts = 1, reads = 3\<rparr>"
proof -
  let ?s = "\<lambda>t :: nat. if t = 1 then blue else red"
  let ?u = "\<lambda>t :: nat. none"
  let ?lc = "\<lparr>pow3 = \<lambda>n. 3 ^ n, srand = \<lambda>s. s, rand = \<lambda>g. (6, g + 1)\<rparr>"
  have h1: "readAndDisplayCards ?s ?u [none, none, none] 3 0 = Some ([red, blue, red], 3)"
    by (simp add: readAndDisplayCards_def readAndDisplayCards_loop.simps displayNextCard_def
        displayNextCard_loop.simps)
  have h2: "printed (removeWrongGuesses [red, blue, red] [red, blue, red] 3) = int 3"
    by code_simp
  have h3: "[red, blue, red] = fst (getCorrectSet ?lc 0 0 [none, none, none] 3)"
    by code_simp
  from game_wins_at_once [where i = 0 and numSlots = 3 and s = ?s and u = ?u
      and gs = "[none, none, none]" and t = 0 and guess = "[red, blue, red]" and t' = 3
      and correctSet = "[red, blue, red]" and ?guess1.0 = "[red, blue, red]" and ?t1.0 = 3
      and lc = ?lc and ?a5.0 = 0 and g = 0] h1 h2 h3
  show ?thesis by simp
qed


text \<open>
  Claim C6.  At level 1 (three slots, three attempts), when three guesses are read one
  after the other and none of them is scored with three right slots, \<^verbatim>\<open>game\<close> returns
  \<^verbatim>\<open>false\<close> after exactly three calls of \<^verbatim>\<open>readAndDisplayCards\<close>, with no sensor read
  after the third guess.
\<close>

theorem game_loses_after_three:
  assumes "readAndDisplayCards s u [none, none, none] 3 t = Some (guess1, t1)"
    and "readAndDisplayCards s u guess1 3 t1 = Some (guess2, t2)"
    and "readAndDisplayCards s u guess2 3 t2 = Some (guess3, t3)"
    and "printed (removeWrongGuesses guess1 (fst (getCorrectSet lc a5 g [none, none, none] 3)) 3) \<noteq> 3"
    and "printed (removeWrongGuesses guess2 (fst (getCorrectSet lc a5 g [none, none, none] 3)) 3) \<noteq> 3"
    and "printed (removeWrongGuesses guess3 (fst (getCorrectSet lc a5 g [none, none, none] 3)) 3) \<noteq> 3"
  shows "game lc a5 s u 1 g t = Some \<lparr>outcome = False, attempts = 3, reads = t3\<rparr>"
proof -
  let ?cs = "fst (getCorrectSet lc a5 g [none, none, none] 3)"
  have r: "returned (removeWrongGuesses guess1 ?cs 3) \<noteq> 0"
    "returned (removeWrongGuesses guess2 ?cs 3) \<noteq> 0"
    "returned (removeWrongGuesses guess3 ?cs 3) \<noteq> 0"
    using assms(4,5,6) printed_returned [of _ ?cs 3] by simp_all
  have "game lc a5 s u 1 g t = game_loop s u ?cs 3 [none, none, none] 0 t"
    by (rule game_level_1)
  also have "\<dots> = game_loop s u ?cs 3 guess1 (0 + 1) t1"
    by (rule game_loop_continue [OF _ assms(1) r(1)]) simp
  also have "\<dots> = game_loop s u ?cs 3 guess2 (0 + 1 + 1) t2"
    by (rule game_loop_continue [OF _ assms(2) r(2)]) simp
  also have "\<dots> = game_loop s u ?cs 3 guess3 (0 + 1 + 1 + 1) t3"
    by (rule game_loop_continue [OF _ assms(3) r(3)]) simp
  also have "\<dots> = Some \<lparr>outcome = False, attempts = 0 + 1 + 1 + 1, reads = t3\<rparr>"
    by (rule game_loop_exhausted) simp
  finally show ?thesis by simp
qed


theorem game_loses_after_three_witness:
  "readAndDisplayCards (\<lambda>t. green) (\<lambda>t. none) [none, none, none] 3 0 =
     Some ([green, green, green], 3) \<and>
   readAndDisplayCards (\<lambda>t. green) (\<lambda>t. none) [green, green, green] 3 3 =
     Some ([green, green, green], 6) \<and>
   readAndDisplayCards (\<lambda>t. green) (\<lambda>t. none) [green, green, green] 3 6 =
     Some ([green, green, green], 9) \<and>
   printed (removeWrongGuesses [green, green, green]
     (fst (getCorrectSet \<lparr>pow3 = \<lambda>n. 3 ^ n, srand = \<lambda>s. s, rand = \<lambda>g. (6, g + 1)\<rparr>
            0 0 [none, none, none] 3)) 3) \<noteq> 3 \<and>
   game \<lparr>pow3 = \<lambda>n. 3 ^ n, srand = \<lambda>s. s, rand = \<lambda>g. (6, g + 1)\<rparr> 0
     (\<lambda>t. green) (\<lambda>t. none) 1 0 0 =
     Some \<lparr>outcome = False, attempts = 3, reads = 9\<rparr>"
proof -
  let ?s = "\<lambda>t :: nat. green"
  let ?u = "\<lambda>t :: nat. none"
  let ?lc = "\<lparr>pow3 = \<lambda>n. 3 ^ n, srand = \<lambda>s. s, rand = \<lambda>g. (6, g + 1)\<rparr>"
  have h1: "readAndDisplayCards ?s ?u [none, none, none] 3 0 = Some ([green, green, green], 3)"
    by (simp add: readAndDisplayCards_def readAndDisplayCards_loop.simps displayNextCard_def
        displayNextCard_loop.simps)
  have h2: "readAndDisplayCards ?s ?u [green, green, green] 3 3 = Some ([green, green, green], 6)"
    by (simp add: readAndDisplayCards_def readAndDisplayCards_loop.simps displayNextCard_def
        displayNextCard_loop.simps)
  have h3: "readAndDisplayCards ?s ?u [green, green, green] 3 6 = Some ([green, green, green], 9)"
    by (simp add: readAndDisplayCards_def readAndDisplayCards_loop.simps displayNextCard_def
        displayNextCard_loop.simps)
  have h4: "printed (removeWrongGuesses [green, green, green]
     (fst (getCorrectSet ?lc 0 0 [none, none, none] 3)) 3) \<noteq> 3"
    by code_simp
  from game_loses_after_three [OF h1 h2 h3 h4 h4 h4] h1 h2 h3 h4
  show ?thesis by simp
qed

section \<open>The level\<close>

lemma startScreen_poll_stop:
  "color \<noteq> none \<or> bound \<le> counter \<Longrightarrow>
   startScreen_poll s bound color counter t = (color, counter, t)"
  by (subst startScreen_poll.simps) auto

lemma startScreen_poll_skip:
  "\<forall>k<m. s (t + k) = none \<Longrightarrow> counter + m \<le> bound \<Longrightarrow>
   startScreen_poll s bound none counter t = startScreen_poll s bound none (counter + m) (t + m)"
proof (induction m arbitrary: counter t)
  case 0
  then show ?case by simp
next
  case (Suc m)
  have first: "s t = none" using Suc.prems(1) [rule_format, of 0] by simp
  have rest: "\<forall>k<m. s (t + 1 + k) = none"
  proof (intro allI impI)
    fix k assume "k < m"
    then have "s (t + Suc k) = none" using Suc.prems(1) [rule_format, of "Suc k"] by simp
    then show "s (t + 1 + k) = none" by simp
  qed
  have "startScreen_poll s bound none counter t =
        startScreen_poll s bound none (counter + 1) (t + 1)"
    using Suc.prems(2) first by (subst startScreen_poll.simps) simp
  also have "\<dots> = startScreen_poll s bound none (counter + 1 + m) (t + 1 + m)"
    using Suc.prems(2) by (intro Suc.IH [OF rest]) simp
  finally show ?case by simp
qed

lemma startScreen_poll_found:
  assumes "\<forall>k<d. s (t + k) = none" and "s (t + d) \<noteq> none" and "counter + d < bound"
  shows "startScreen_poll s bound none counter t = (s (t + d), counter + d + 1, t + d + 1)"
proof -
  have "startScreen_poll s bound none counter t =
        startScreen_poll s bound none (counter + d) (t + d)"
    using assms(1,3) by (intro startScreen_poll_skip) simp_all
  also have "\<dots> = startScreen_poll s bound (s (t + d)) (counter + d + 1) (t + d + 1)"
    using assms(3) by (subst startScreen_poll.simps) simp
  also have "\<dots> = (s (t + d), counter + d + 1, t + d + 1)"
    using assms(2) by (simp add: startScreen_poll_stop)
  finally show ?thesis .
qed

lemma startScreen_poll_exhaust:
  assumes "\<forall>k<m. s (t + k) = none" and "counter + m = bound"
  shows "startScreen_poll s bound none counter t = (none, bound, t + m)"
proof -
  have "startScreen_poll s bound none counter t =
        startScreen_poll s bound none (counter + m) (t + m)"
    using assms by (intro startScreen_poll_skip) simp_all
  also have "\<dots> = (none, bound, t + m)"
    using assms(2) by (simp add: startScreen_poll_stop)
  finally show ?thesis .
qed

lemma startScreen_round_found:
  assumes "\<forall>k<d. s (t + k) = none" and "s (t + d) \<noteq> none" and "d < 90"
  shows "startScreen_round s none False t = (s (t + d), True, t + d + 1)"
proof (cases "d < 10")
  case True
  have p1: "startScreen_poll s 10 none 0 t = (s (t + d), 0 + d + 1, t + d + 1)"
    using assms(1,2) True by (intro startScreen_poll_found) simp_all
  show ?thesis
    using assms(2) by (simp add: startScreen_round_def p1 startScreen_poll_stop)
next
  case False
  have p1: "startScreen_poll s 10 none 0 t = (none, 10, t + 10)"
    using assms(1) False by (intro startScreen_poll_exhaust) simp_all
  have n2: "\<forall>k<d - 10. s (t + 10 + k) = none"
    using assms(1) False by (simp add: add.assoc)
  have e: "t + 10 + (d - 10) = t + d" using False by simp
  have "startScreen_poll s 90 none 10 (t + 10) =
        (s (t + 10 + (d - 10)), 10 + (d - 10) + 1, t + 10 + (d - 10) + 1)"
    using assms(2,3) False n2 by (intro startScreen_poll_found) (simp_all add: e)
  then have p2: "startScreen_poll s 90 none 10 (t + 10) = (s (t + d), d + 1, t + d + 1)"
    using False by (simp add: e)
  show ?thesis
    using assms(2) by (simp add: startScreen_round_def p1 p2)
qed

lemma startScreen_round_none:
  assumes "\<forall>k<90. s (t + k) = none"
  shows "startScreen_round s none False t = (none, False, t + 90)"
proof -
  have p1: "startScreen_poll s 10 none 0 t = (none, 10, t + 10)"
    using assms by (intro startScreen_poll_exhaust) simp_all
  have "\<forall>k<80. s (t + 10 + k) = none"
    using assms by (simp add: add.assoc)
  then have "startScreen_poll s 90 none 10 (t + 10) = (none, 90, t + 10 + 80)"
    by (intro startScreen_poll_exhaust) simp_all
  then have p2: "startScreen_poll s 90 none 10 (t + 10) = (none, 90, t + 90)" by simp
  show ?thesis by (simp add: startScreen_round_def p1 p2)
qed

lemma startScreen_loop_found:
  "\<forall>k<d. s (t + k) = none \<Longrightarrow> s (t + d) \<noteq> none \<Longrightarrow>
   startScreen_loop s none False t = Some (s (t + d), t + d + 1)"
proof (induction d arbitrary: t rule: less_induct)
  case (less d)
  show ?case
  proof (cases "d < 90")
    case True
    have "startScreen_loop s none False t = startScreen_loop s (s (t + d)) True (t + d + 1)"
      by (subst startScreen_loop.simps)
        (simp add: startScreen_round_found [OF less.prems True])
    also have "\<dots> = Some (s (t + d), t + d + 1)"
      by (subst startScreen_loop.simps) simp
    finally show ?thesis .
  next
    case False
    have n: "\<forall>k<90. s (t + k) = none" using less.prems(1) False by simp
    have n2: "\<forall>k<d - 90. s (t + 90 + k) = none"
      using less.prems(1) False by (simp add: add.assoc)
    have e: "t + 90 + (d - 90) = t + d" using False by simp
    have "startScreen_loop s none False t = startScreen_loop s none False (t + 90)"
      by (subst startScreen_loop.simps) (simp add: startScreen_round_none [OF n])
    also have "\<dots> = Some (s (t + 90 + (d - 90)), t + 90 + (d - 90) + 1)"
      using False less.prems(2) by (intro less.IH n2) (simp_all add: e)
    finally show ?thesis by (simp add: e)
  qed
qed

lemma startScreen_loop_never:
  assumes "startScreen_loop s color startSignal t = Some y"
  shows "\<not> (color = none \<and> startSignal = False \<and> (\<forall>k. s (t + k) = none))"
proof (rule startScreen_loop.raw_induct [where P = "\<lambda>s color startSignal t y.
    \<not> (color = none \<and> startSignal = False \<and> (\<forall>k. s (t + k) = none))", OF _ assms])
  fix loop :: "sensor \<Rightarrow> Color \<Rightarrow> bool \<Rightarrow> nat \<Rightarrow> (Color \<times> nat) option"
  fix s color startSignal t y
  assume IH: "\<And>s color startSignal t y. loop s color startSignal t = Some y \<Longrightarrow>
    \<not> (color = none \<and> startSignal = False \<and> (\<forall>k. s (t + k) = none))"
  assume eq: "(if startSignal = False then
       loop s (fst (startScreen_round s color startSignal t))
         (fst (snd (startScreen_round s color startSignal t)))
         (snd (snd (startScreen_round s color startSignal t)))
     else Some (color, t)) = Some y"
  show "\<not> (color = none \<and> startSignal = False \<and> (\<forall>k. s (t + k) = none))"
  proof
    assume a: "color = none \<and> startSignal = False \<and> (\<forall>k. s (t + k) = none)"
    then have r: "startScreen_round s color startSignal t = (none, False, t + 90)"
      using startScreen_round_none [of s t] by simp
    with eq a have "loop s none False (t + 90) = Some y" by simp
    from IH [OF this] a show False by (simp add: add.assoc)
  qed
qed

lemma startScreen_loop_Some:
  assumes "startScreen_loop s none False t = Some y"
  shows "\<exists>d. (\<forall>k<d. s (t + k) = none) \<and> s (t + d) \<noteq> none \<and> y = (s (t + d), t + d + 1)"
proof -
  from startScreen_loop_never [OF assms] obtain k where k: "s (t + k) \<noteq> none" by auto
  define d where "d = (LEAST k. s (t + k) \<noteq> none)"
  have d: "s (t + d) \<noteq> none" unfolding d_def using k by (rule LeastI)
  have below: "\<forall>k<d. s (t + k) = none"
    using not_less_Least [of _ "\<lambda>k. s (t + k) \<noteq> none"] by (auto simp: d_def)
  from startScreen_loop_found [OF below d] assms have "y = (s (t + d), t + d + 1)" by simp
  with below d show ?thesis by blast
qed

text \<open>
  Claim C3.  The colours 1, 2 and 3 of the enumeration are red, green and blue.  The
  first colour other than \<open>none\<close> that \<^verbatim>\<open>startScreen\<close> reads decides the level: green
  (colour 2) gives level 1, blue (colour 3) gives level 2, red (colour 1) gives level 3.
  A reading of \<open>none\<close> gives no level: the function keeps polling, and never returns
  while the sensor reads \<open>none\<close>.  Whenever the function returns, it returns one of the
  three levels, the one of the colour read last.
\<close>

theorem startScreen_levels:
  "((\<forall>k<d. s (t + k) = none) \<and> s (t + d) = green \<longrightarrow>
      startScreen s t = Some (Some 1, t + d + 1)) \<and>
   ((\<forall>k<d. s (t + k) = none) \<and> s (t + d) = blue \<longrightarrow>
      startScreen s t = Some (Some 2, t + d + 1)) \<and>
   ((\<forall>k<d. s (t + k) = none) \<and> s (t + d) = red \<longrightarrow>
      startScreen s t = Some (Some 3, t + d + 1)) \<and>
   ((\<forall>k. s (t + k) = none) \<longrightarrow> startScreen s t = None) \<and>
   (startScreen s t = Some (level, t') \<longrightarrow>
      level = Some 1 \<and> s (t' - 1) = green \<or>
      level = Some 2 \<and> s (t' - 1) = blue \<or>
      level = Some 3 \<and> s (t' - 1) = red)"
proof (intro conjI impI)
  assume "(\<forall>k<d. s (t + k) = none) \<and> s (t + d) = green"
  then have "startScreen_loop s none False t = Some (s (t + d), t + d + 1)"
    by (intro startScreen_loop_found) simp_all
  with \<open>_ \<and> s (t + d) = green\<close> show "startScreen s t = Some (Some 1, t + d + 1)"
    by (simp add: startScreen_def)
next
  assume "(\<forall>k<d. s (t + k) = none) \<and> s (t + d) = blue"
  then have "startScreen_loop s none False t = Some (s (t + d), t + d + 1)"
    by (intro startScreen_loop_found) simp_all
  with \<open>_ \<and> s (t + d) = blue\<close> show "startScreen s t = Some (Some 2, t + d + 1)"
    by (simp add: startScreen_def)
next
  assume "(\<forall>k<d. s (t + k) = none) \<and> s (t + d) = red"
  then have "startScreen_loop s none False t = Some (s (t + d), t + d + 1)"
    by (intro startScreen_loop_found) simp_all
  with \<open>_ \<and> s (t + d) = red\<close> show "startScreen s t = Some (Some 3, t + d + 1)"
    by (simp add: startScreen_def)
next
  assume a: "\<forall>k. s (t + k) = none"
  have "startScreen_loop s none False t = None"
  proof (cases "startScreen_loop s none False t")
    case (Some y)
    from startScreen_loop_never [OF Some] a show ?thesis by simp
  qed simp
  then show "startScreen s t = None" by (simp add: startScreen_def)
next
  assume a: "startScreen s t = Some (level, t')"
  then obtain y where y: "startScreen_loop s none False t = Some y"
    by (cases "startScreen_loop s none False t") (simp_all add: startScreen_def)
  from startScreen_loop_Some [OF y] obtain d where
    d: "s (t + d) \<noteq> none" "y = (s (t + d), t + d + 1)" by blast
  from a y d have "t' = t + d + 1" by (simp add: startScreen_def)
  then have "s (t' - 1) = s (t + d)" by simp
  with a y d show "level = Some 1 \<and> s (t' - 1) = green \<or>
      level = Some 2 \<and> s (t' - 1) = blue \<or>
      level = Some 3 \<and> s (t' - 1) = red"
    by (cases "s (t + d)") (auto simp: startScreen_def)
qed

theorem startScreen_levels_witness:
  "startScreen (\<lambda>t. if t = 2 then green else none) 0 = Some (Some 1, 3) \<and>
   startScreen (\<lambda>t. if t = 2 then blue else none) 0 = Some (Some 2, 3) \<and>
   startScreen (\<lambda>t. if t = 2 then red else none) 0 = Some (Some 3, 3) \<and>
   startScreen (\<lambda>t. none) 0 = None \<and>
   (Some 1 = Some (1 :: int) \<and> (\<lambda>t :: nat. if t = 2 then green else none) (3 - 1) = green \<or>
    Some 1 = Some (2 :: int) \<and> (\<lambda>t :: nat. if t = 2 then green else none) (3 - 1) = blue \<or>
    Some 1 = Some (3 :: int) \<and> (\<lambda>t :: nat. if t = 2 then green else none) (3 - 1) = red)"
proof -
  have two: "(\<forall>k<2::nat. P k) = (P 0 \<and> P 1)" for P
    by (auto simp: less_Suc_eq numeral_2_eq_2)
  have g: "startScreen (\<lambda>t. if t = 2 then green else none) 0 = Some (Some 1, 3)"
    using startScreen_levels [where s = "\<lambda>t. if t = 2 then green else none" and t = 0 and d = 2,
        THEN conjunct1]
    by (simp add: two)
  have b: "startScreen (\<lambda>t. if t = 2 then blue else none) 0 = Some (Some 2, 3)"
    using startScreen_levels [where s = "\<lambda>t. if t = 2 then blue else none" and t = 0 and d = 2,
        THEN conjunct2, THEN conjunct1]
    by (simp add: two)
  have r: "startScreen (\<lambda>t. if t = 2 then red else none) 0 = Some (Some 3, 3)"
    using startScreen_levels [where s = "\<lambda>t. if t = 2 then red else none" and t = 0 and d = 2,
        THEN conjunct2, THEN conjunct2, THEN conjunct1]
    by (simp add: two)
  have n: "startScreen (\<lambda>t. none) 0 = None"
    using startScreen_levels [where s = "\<lambda>t. none" and t = 0,
        THEN conjunct2, THEN conjunct2, THEN conjunct2, THEN conjunct1]
    by simp
  note l = startScreen_levels [where s = "\<lambda>t. if t = 2 then green else none" and t = 0,
        THEN conjunct2, THEN conjunct2, THEN conjunct2, THEN conjunct2, rule_format, OF g]
  from g b r n l show ?thesis by (intro conjI)
qed

end
